theory Spec2Isabelle
  imports Complex_Main "HOL-Library.AList" "HOL-Library.Multiset" "HOL-Library.Signed_Division"
begin

section \<open>gitgraph: commit cache, weekly aggregation, axis ticks, file names\<close>

text \<open>
  A shallow embedding of \<^verbatim>\<open>main.go\<close>. The program keeps a table from repository URL
  to a chart (display name and commit timestamps), merges a JSON cache file into it, clones
  the repositories whose commit list is still empty, writes the cache back when something was
  cloned, and draws one weekly chart per repository.
\<close>

subsection \<open>Data\<close>

text \<open>
  A Go \<^verbatim>\<open>time.Time\<close> is read through two methods only: \<^verbatim>\<open>Unix()\<close>, the whole seconds since
  the epoch, and \<^verbatim>\<open>Before\<close>, which compares instants to the nanosecond. An instant is therefore
  the seconds since the epoch and the nanoseconds within that second. Seconds are an
  \<^verbatim>\<open>int64\<close> in Go; they are an unbounded \<open>int\<close> here, and \<open>bucket_in_range\<close> below shows
  that the one arithmetic expression on them cannot leave the range of its input.
\<close>

record time =
  sec :: int
  nsec :: nat

definition Unix :: "time \<Rightarrow> int" where
  "Unix t = sec t"

definition Before :: "time \<Rightarrow> time \<Rightarrow> bool" where
  "Before t u = (sec t < sec u \<or> (sec t = sec u \<and> nsec t < nsec u))"

text \<open>\<^verbatim>\<open>type chart struct { Name string; Commits []time.Time }\<close>\<close>

record chart =
  Name :: string
  Commits :: "time list"

text \<open>
  \<^verbatim>\<open>type FileType map[string]*chart\<close>. The table of the running program, \<open>urlLookup\<close>, is
  built from composite literals, so each of its pointers is non-nil and no two keys share a
  chart: it is a map from URL to chart. A table decoded from JSON may hold nil pointers (the
  JSON value \<^verbatim>\<open>null\<close>), so a decoded table maps a URL to \<open>None\<close> (nil) or \<open>Some\<close> chart.
\<close>

type_synonym FileType = "string \<rightharpoonup> chart"
type_synonym snapshot = "string \<rightharpoonup> chart option"

definition urlLookup :: FileType where
  "urlLookup =
     [''https://github.com/linuxdeepin/dde-daemon'' \<mapsto> \<lparr>Name = ''DDE Daemon'', Commits = []\<rparr>,
      ''https://github.com/linuxdeepin/dde-dock'' \<mapsto> \<lparr>Name = ''DDE Dock'', Commits = []\<rparr>,
      ''https://github.com/linuxdeepin/dde-session-shell'' \<mapsto>
         \<lparr>Name = ''DDE Session Shell'', Commits = []\<rparr>]"

subsection \<open>File names\<close>

text \<open>
  \<^verbatim>\<open>strings.NewReplacer(" ", "_", ":", "-", "\\", "-", "/", "-")\<close>: every old and new string
  is one byte long, so the replacer rewrites byte by byte, an earlier pair winning over a
  later one with the same old byte. The backslash is the byte \<open>0x5C\<close>.
\<close>

definition cleaner :: "(char \<times> char) list" where
  "cleaner = [(CHR '' '', CHR ''_''), (CHR '':'', CHR ''-''), (CHR 0x5C, CHR ''-''),
              (CHR ''/'', CHR ''-'')]"

definition Replace :: "(char \<times> char) list \<Rightarrow> string \<Rightarrow> string" where
  "Replace r s = map (\<lambda>c. case map_of r c of None \<Rightarrow> c | Some n \<Rightarrow> n) s"

definition cleanFilename :: "string \<Rightarrow> string" where
  "cleanFilename name = Replace cleaner name"

subsection \<open>Weekly buckets\<close>

text \<open>
  \<^verbatim>\<open>const GroupSize = 60 * 60 * 24 * 7\<close>. Go's \<^verbatim>\<open>/\<close> on integers truncates towards zero,
  which is \<open>sdiv\<close>; HOL's \<open>div\<close> rounds down.
\<close>

definition GroupSize :: int where
  "GroupSize = 60 * 60 * 24 * 7"

text \<open>\<^verbatim>\<open>a := dt.Unix() / GroupSize; b := a * GroupSize\<close>\<close>

definition bucket :: "time \<Rightarrow> int" where
  "bucket dt = (let a = Unix dt sdiv GroupSize; b = a * GroupSize in b)"

text \<open>
  \<^verbatim>\<open>agg := map[int64]int64{}\<close>. The map is kept as a list of entries with distinct keys;
  \<^verbatim>\<open>agg[b]++\<close> reads 0 for a key that is not there.
\<close>

definition agg_incr :: "int \<Rightarrow> (int \<times> int) list \<Rightarrow> (int \<times> int) list" where
  "agg_incr b agg = AList.update b ((case map_of agg b of None \<Rightarrow> 0 | Some y \<Rightarrow> y) + 1) agg"

text \<open>
  \<^verbatim>\<open>for _, dt := range ch.Commits { if now.Before(dt) { continue }; ...; agg[b]++ }\<close>
\<close>

fun agg_loop :: "time \<Rightarrow> time list \<Rightarrow> (int \<times> int) list \<Rightarrow> (int \<times> int) list" where
  "agg_loop now [] agg = agg"
| "agg_loop now (dt # dts) agg =
     (if Before now dt then agg_loop now dts agg
      else agg_loop now dts (agg_incr (bucket dt) agg))"

text \<open>
  \<^verbatim>\<open>for x, y := range agg { fy := float64(y); if fy > maxY { maxY = fy }; data = append(...) }\<close>
  The entries are visited in the order of the list given, which stands for the order Go
  happens to choose; \<open>aggregate_any_order\<close> below shows that the order has no effect on the
  result. A \<^verbatim>\<open>float64\<close> is modelled as a real number: the conversion of an integer is exact
  (which it is in Go below \<open>2 ^ 53\<close>), and rounding, infinities and NaN are not modelled.
\<close>

fun data_loop :: "(int \<times> int) list \<Rightarrow> real \<Rightarrow> (real \<times> real) list \<Rightarrow> real \<times> (real \<times> real) list" where
  "data_loop [] maxY data = (maxY, data)"
| "data_loop ((x, y) # es) maxY data =
     (let fy = real_of_int y
      in data_loop es (if fy > maxY then fy else maxY) (data @ [(real_of_int x, fy)]))"

text \<open>
  The part of \<^verbatim>\<open>display\<close> before the plot is built: the points, sorted by
  \<^verbatim>\<open>sort.Slice\<close> on \<open>X\<close>, and \<open>maxY\<close>. \<open>entries\<close> is the map \<open>agg\<close> in the order the
  second loop visits it.
\<close>

definition aggregate_from :: "(int \<times> int) list \<Rightarrow> (real \<times> real) list \<times> real" where
  "aggregate_from entries =
     (case data_loop entries 0 [] of (maxY, data) \<Rightarrow> (sort_key fst data, maxY))"

definition aggregate :: "time \<Rightarrow> time list \<Rightarrow> (real \<times> real) list \<times> real" where
  "aggregate now commits = aggregate_from (agg_loop now commits [])"

text \<open>
  What the first loop of \<^verbatim>\<open>display\<close> adds up under the key \<open>b\<close>: the commits it does
  not skip and whose key, as the code computes it (\<open>bucket\<close>, with Go's division), is
  \<open>b\<close>. This is a reading of the code, not the count of the specification, which is
  \<open>floor_counted\<close> below.
\<close>

definition counted :: "time \<Rightarrow> time list \<Rightarrow> int \<Rightarrow> nat" where
  "counted now commits b = length [dt \<leftarrow> commits. \<not> Before now dt \<and> bucket dt = b]"

subsection \<open>Axis ticks\<close>

text \<open>
  Go's conversion \<^verbatim>\<open>int(f)\<close> discards the fraction (truncation towards zero).
\<close>

definition trunc :: "real \<Rightarrow> int" where
  "trunc r = (if r < 0 then \<lceil>r\<rceil> else \<lfloor>r\<rfloor>)"

record tick =
  Value :: real
  Label :: string

text \<open>
  The function given to \<^verbatim>\<open>plot.TickerFunc\<close>.
  \<^verbatim>\<open>make([]plot.Tick, n)\<close> panics when \<open>n\<close> is negative: that is \<open>None\<close>.
\<close>

definition Ticker :: "real \<Rightarrow> real \<Rightarrow> tick list option" where
  "Ticker mn mx =
     (let n = trunc ((mx - mn) / real_of_int GroupSize)
      in if n < 0 then None
         else Some (map (\<lambda>i. \<lparr>Value = mn + real_of_int GroupSize * real i,
                                Label = (if i mod 13 = 0 then ''|'' else [])\<rparr>)
                        [0..<nat n]))"

subsection \<open>Errors, the cache file and the outside world\<close>

datatype error = OpenError | DecodeError | CloneError | SaveError | RenderError

text \<open>How a call ends: it returns nil, returns an error, or panics.\<close>

datatype outcome = Success | Failure error | Panic

text \<open>
  What \<^verbatim>\<open>os.Open\<close> and \<^verbatim>\<open>json.Decoder.Decode\<close> make of the cache file: it does not exist,
  it cannot be opened for another reason, it does not decode, or it decodes to a table.
\<close>

datatype cache_file = NotExist | Unreadable | Corrupt | Decoded snapshot

text \<open>
  The history provider (\<^verbatim>\<open>git.Clone\<close>, \<^verbatim>\<open>Head\<close>, \<^verbatim>\<open>Log\<close>, \<^verbatim>\<open>ForEach\<close>) for one URL:
  an error before any commit is seen, an error after the callback has appended some
  timestamps, or all timestamps.
\<close>

datatype fetched = CloneFails | IterFails "time list" | Fetched "time list"

text \<open>
  \<^verbatim>\<open>Save\<close> as the operating system lets it end: an error (from \<^verbatim>\<open>os.Create\<close>,
  \<^verbatim>\<open>Encode\<close> or \<^verbatim>\<open>Close\<close>) that leaves the file in the state given, or the file written.
\<close>

datatype save_env = SaveFails cache_file | Written

text \<open>What is handed to gonum: title, points, \<open>Y.Max\<close> and the path of the image.\<close>

record plot =
  Title :: string
  Data :: "(real \<times> real) list"
  YMax :: real
  File :: string

datatype event = Clone string | SaveCall | Render plot

text \<open>
  Everything \<^verbatim>\<open>run\<close> takes from outside. Go visits the keys of a map in an order of its own
  choice, anew for each loop: the three orders are given. \<open>clock u\<close> is \<^verbatim>\<open>time.Now()\<close> in
  the call of \<^verbatim>\<open>display\<close> for \<open>u\<close>; \<open>renderer\<close> is \<^verbatim>\<open>plotter.NewLinePoints\<close> with
  \<^verbatim>\<open>p.Save\<close>.
\<close>

record env =
  load_order :: "string list"
  fetch_order :: "string list"
  display_order :: "string list"
  provider :: "string \<Rightarrow> fetched"
  save_env :: save_env
  clock :: "string \<Rightarrow> time"
  renderer :: "plot \<Rightarrow> outcome"

subsection \<open>Load and Save\<close>

text \<open>
  \<^verbatim>\<open>for key, ch := range ft { v, ok := store[key]; if !ok { continue }; ch.Commits = v.Commits }\<close>
  Reading \<^verbatim>\<open>v.Commits\<close> through a nil \<open>v\<close> panics.
\<close>

fun Load_loop :: "string list \<Rightarrow> snapshot \<Rightarrow> FileType \<Rightarrow> FileType \<times> outcome" where
  "Load_loop [] snap ft = (ft, Success)"
| "Load_loop (key # keys) snap ft =
     (case ft key of
        None \<Rightarrow> Load_loop keys snap ft
      | Some ch \<Rightarrow>
          (case snap key of
             None \<Rightarrow> Load_loop keys snap ft
           | Some None \<Rightarrow> (ft, Panic)
           | Some (Some v) \<Rightarrow> Load_loop keys snap (ft(key \<mapsto> ch\<lparr>Commits := Commits v\<rparr>))))"

definition Load :: "string list \<Rightarrow> FileType \<Rightarrow> cache_file \<Rightarrow> FileType \<times> outcome" where
  "Load order ft f =
     (case f of
        NotExist \<Rightarrow> (ft, Success)
      | Unreadable \<Rightarrow> (ft, Failure OpenError)
      | Corrupt \<Rightarrow> (ft, Failure DecodeError)
      | Decoded snap \<Rightarrow> Load_loop order snap ft)"

text \<open>
  The JSON document of a table holds every entry of it, none of them \<^verbatim>\<open>null\<close>; decoding it
  again is taken to give the same names and timestamps.
\<close>

definition Save :: "FileType \<Rightarrow> save_env \<Rightarrow> cache_file \<Rightarrow> cache_file \<times> outcome" where
  "Save ft se f =
     (case se of
        SaveFails f' \<Rightarrow> (f', Failure SaveError)
      | Written \<Rightarrow> (Decoded (\<lambda>k. map_option Some (ft k)), Success))"

subsection \<open>display\<close>

text \<open>
  \<^verbatim>\<open>filepath.Join(outputDir, fn)\<close> with the separator of Unix; \<open>fn\<close> holds no separator and
  ends in \<^verbatim>\<open>.png\<close>, so cleaning the path changes nothing.
\<close>

definition outputDir :: string where
  "outputDir = ''output''"

definition plot_of :: "time \<Rightarrow> chart \<Rightarrow> plot" where
  "plot_of now ch =
     (case aggregate now (Commits ch) of
        (data, maxY) \<Rightarrow>
          \<lparr>Title = Name ch, Data = data, YMax = maxY,
           File = outputDir @ ''/'' @ cleanFilename (Name ch) @ ''.png''\<rparr>)"

definition display :: "time \<Rightarrow> (plot \<Rightarrow> outcome) \<Rightarrow> chart \<Rightarrow> plot \<times> outcome" where
  "display now rnd ch = (let p = plot_of now ch in (p, rnd p))"

subsection \<open>run\<close>

text \<open>
  The first loop of \<^verbatim>\<open>run\<close>, on the table, the flag \<open>updated\<close> and the events so far.
\<close>

fun fetch_loop ::
  "(string \<Rightarrow> fetched) \<Rightarrow> string list \<Rightarrow> FileType \<times> bool \<times> event list
     \<Rightarrow> (FileType \<times> bool \<times> event list) \<times> outcome" where
  "fetch_loop p [] s = (s, Success)"
| "fetch_loop p (u # us) (ft, updated, tr) =
     (case ft u of
        None \<Rightarrow> fetch_loop p us (ft, updated, tr)
      | Some ch \<Rightarrow>
          if length (Commits ch) > 0 then fetch_loop p us (ft, updated, tr)
          else
            (case p u of
               CloneFails \<Rightarrow> ((ft, updated, tr @ [Clone u]), Failure CloneError)
             | IterFails ts \<Rightarrow>
                 ((ft(u \<mapsto> ch\<lparr>Commits := Commits ch @ ts\<rparr>), updated, tr @ [Clone u]),
                  Failure CloneError)
             | Fetched ts \<Rightarrow>
                 fetch_loop p us
                   (ft(u \<mapsto> ch\<lparr>Commits := Commits ch @ ts\<rparr>), True, tr @ [Clone u])))"

text \<open>The last loop of \<^verbatim>\<open>run\<close>.\<close>

fun display_loop ::
  "(string \<Rightarrow> time) \<Rightarrow> (plot \<Rightarrow> outcome) \<Rightarrow> string list \<Rightarrow> FileType \<Rightarrow> event list
     \<Rightarrow> event list \<times> outcome" where
  "display_loop clk rnd [] ft tr = (tr, Success)"
| "display_loop clk rnd (u # us) ft tr =
     (case ft u of
        None \<Rightarrow> display_loop clk rnd us ft tr
      | Some ch \<Rightarrow>
          (case display (clk u) rnd ch of
             (p, r) \<Rightarrow>
               if r = Success then display_loop clk rnd us ft (tr @ [Render p])
               else (tr @ [Render p], r)))"

text \<open>
  The state a run ends in: the table, the cache file, the calls made to the outside in
  their order, and how \<^verbatim>\<open>run\<close> ended.
\<close>

record world =
  store :: FileType
  cache :: cache_file
  trace :: "event list"
  result :: outcome

definition run :: "env \<Rightarrow> FileType \<Rightarrow> cache_file \<Rightarrow> world" where
  "run e ft f =
     (case Load (load_order e) ft f of
        (ft1, r1) \<Rightarrow>
          if r1 \<noteq> Success then \<lparr>store = ft1, cache = f, trace = [], result = r1\<rparr>
          else
            (case fetch_loop (provider e) (fetch_order e) (ft1, False, []) of
               ((ft2, updated, tr2), r2) \<Rightarrow>
                 if r2 \<noteq> Success then \<lparr>store = ft2, cache = f, trace = tr2, result = r2\<rparr>
                 else if updated then
                   (case Save ft2 (save_env e) f of
                      (f3, r3) \<Rightarrow>
                        if r3 \<noteq> Success
                        then \<lparr>store = ft2, cache = f3, trace = tr2 @ [SaveCall], result = r3\<rparr>
                        else
                          (case display_loop (clock e) (renderer e) (display_order e) ft2
                                  (tr2 @ [SaveCall]) of
                             (tr4, r4) \<Rightarrow>
                               \<lparr>store = ft2, cache = f3, trace = tr4, result = r4\<rparr>))
                 else
                   (case display_loop (clock e) (renderer e) (display_order e) ft2 tr2 of
                      (tr4, r4) \<Rightarrow> \<lparr>store = ft2, cache = f, trace = tr4, result = r4\<rparr>)))"

subsection \<open>The formulas of the specification\<close>

text \<open>
  The bucket start as the specification writes it, \<open>floor(epoch_seconds(t) / W) * W\<close>, to be
  compared with \<open>bucket\<close>, which is the code.
\<close>

definition floor_bucket :: "time \<Rightarrow> int" where
  "floor_bucket dt = \<lfloor>real_of_int (Unix dt) / real_of_int GroupSize\<rfloor> * GroupSize"

text \<open>
  The merge as the specification writes it: an entry of the table whose identifier is also
  in the snapshot gets the persisted commits, every other entry is left as it is, and no
  entry is added or removed. To be compared with \<open>Load\<close>, which is the code.
\<close>

definition merge_spec :: "FileType \<Rightarrow> snapshot \<Rightarrow> FileType" where
  "merge_spec ft snap =
     (\<lambda>k. case ft k of
            None \<Rightarrow> None
          | Some ch \<Rightarrow>
              (case snap k of
                 Some (Some v) \<Rightarrow> Some (ch\<lparr>Commits := Commits v\<rparr>)
               | _ \<Rightarrow> Some ch))"

text \<open>An identifier requires a fresh fetch: it is in the table with no commits.\<close>

definition need :: "FileType \<Rightarrow> string \<Rightarrow> bool" where
  "need ft u = (case ft u of None \<Rightarrow> False | Some ch \<Rightarrow> Commits ch = [])"

text \<open>The history provider delivers the history of an identifier without an error.\<close>

definition fetches :: "(string \<Rightarrow> fetched) \<Rightarrow> string \<Rightarrow> bool" where
  "fetches p u = (case p u of Fetched ts \<Rightarrow> True | _ \<Rightarrow> False)"

text \<open>
  The count of a bucket as the specification writes it: the commits that are not after the
  run time and whose bucket key \<open>floor(epoch_seconds(t) / W) * W\<close> is \<open>b\<close>. To be
  compared with what \<open>aggregate\<close> emits, which is the code.
\<close>

definition floor_counted :: "time \<Rightarrow> time list \<Rightarrow> int \<Rightarrow> nat" where
  "floor_counted now commits b =
     length [dt \<leftarrow> commits. \<not> Before now dt \<and> floor_bucket dt = b]"

text \<open>An entry of the map \<open>agg\<close> as a point of the plot.\<close>

definition point :: "int \<times> int \<Rightarrow> real \<times> real" where
  "point e = (real_of_int (fst e), real_of_int (snd e))"

subsection \<open>Concrete inputs\<close>

text \<open>
  Small tables, snapshots and environments on which the theorems below are run:
  \<open>t2020\<close> is 2020-01-01T00:00:00Z and \<open>now2021\<close> one year later.
\<close>

definition t2020 :: time where
  "t2020 = \<lparr>sec = 1577836800, nsec = 0\<rparr>"

definition now2021 :: time where
  "now2021 = \<lparr>sec = 1609459200, nsec = 0\<rparr>"

definition cfgAC :: FileType where
  "cfgAC = [''urlA'' \<mapsto> \<lparr>Name = ''A'', Commits = []\<rparr>,
            ''urlC'' \<mapsto> \<lparr>Name = ''C'', Commits = []\<rparr>]"

definition snapAB :: snapshot where
  "snapAB = [''urlA'' \<mapsto> Some \<lparr>Name = ''Other'', Commits = [t2020]\<rparr>,
             ''urlB'' \<mapsto> Some \<lparr>Name = ''B'', Commits = [t2020, t2020]\<rparr>]"

definition env_ok :: env where
  "env_ok = \<lparr>load_order = [''urlA'', ''urlC''], fetch_order = [''urlC'', ''urlA''],
             display_order = [''urlA'', ''urlC''], provider = (\<lambda>u. Fetched [t2020]),
             save_env = Written, clock = (\<lambda>u. now2021), renderer = (\<lambda>p. Success)\<rparr>"

definition snapAC :: snapshot where
  "snapAC = [''urlA'' \<mapsto> Some \<lparr>Name = ''A'', Commits = [t2020]\<rparr>,
             ''urlC'' \<mapsto> Some \<lparr>Name = ''C'', Commits = [t2020]\<rparr>]"

definition daemon :: string where
  "daemon = ''https://github.com/linuxdeepin/dde-daemon''"

definition dock :: string where
  "dock = ''https://github.com/linuxdeepin/dde-dock''"

definition shell :: string where
  "shell = ''https://github.com/linuxdeepin/dde-session-shell''"

text \<open>An environment in which the history provider fails for every repository.\<close>

definition env_failing :: env where
  "env_failing =
     \<lparr>load_order = [daemon, dock, shell], fetch_order = [dock, shell, daemon],
      display_order = [shell, daemon, dock], provider = (\<lambda>u. CloneFails),
      save_env = Written, clock = (\<lambda>u. now2021), renderer = (\<lambda>p. Success)\<rparr>"

text \<open>The instant \<open>s\<close> seconds after the epoch, and the commits of the scenario.\<close>

definition epoch_sec :: "int \<Rightarrow> time" where
  "epoch_sec s = \<lparr>sec = s, nsec = 0\<rparr>"

definition scenario :: "time list" where
  "scenario = [epoch_sec 0, epoch_sec 86400, epoch_sec 604800, epoch_sec (604800 + 3600)]"

section \<open>Properties\<close>

subsection \<open>Buckets\<close>

lemma floor_bucket_div: "floor_bucket dt = (Unix dt div GroupSize) * GroupSize"
  by (simp add: floor_bucket_def floor_divide_of_int_eq)

text \<open>From the epoch on, truncation and rounding down agree.\<close>

lemma bucket_floor_nonneg: "0 \<le> Unix dt \<Longrightarrow> bucket dt = floor_bucket dt"
  by (simp add: floor_bucket_div bucket_def GroupSize_def signed_divide_int_def sgn_if)

lemma bucket_multiple: "GroupSize dvd bucket dt"
  by (simp add: bucket_def)

text \<open>
  The bucket start is never further from zero than the timestamp, so in Go the
  multiplication cannot overflow an \<^verbatim>\<open>int64\<close>.
\<close>

lemma bucket_in_range: "\<bar>bucket dt\<bar> \<le> \<bar>Unix dt\<bar>"
proof -
  have "\<bar>bucket dt\<bar> = (\<bar>Unix dt\<bar> div GroupSize) * GroupSize"
    by (auto simp add: bucket_def GroupSize_def signed_divide_int_def abs_mult abs_sgn_eq)
  also have "\<dots> \<le> \<bar>Unix dt\<bar>"
    by (simp add: GroupSize_def)
  finally show ?thesis .
qed

text \<open>
  C3. The claim: every timestamp, also one before the epoch, gets the bucket start
  \<open>floor(epoch / W) * W\<close>, so that timestamps with the same \<open>floor(epoch / W)\<close> share a
  bucket. The code divides with Go's \<^verbatim>\<open>/\<close>, which truncates towards zero. One second
  before the epoch the code gives the bucket 0, where rounding down gives \<open>-604800\<close>; and
  the timestamps \<open>-1\<close> and \<open>-604800\<close>, which have the same \<open>floor(epoch / W)\<close>, land in
  different buckets.
\<close>

theorem bucket_before_epoch:
  "bucket \<lparr>sec = - 1, nsec = 0\<rparr> = 0
   \<and> floor_bucket \<lparr>sec = - 1, nsec = 0\<rparr> = - 604800
   \<and> bucket \<lparr>sec = - 604800, nsec = 0\<rparr> = - 604800
   \<and> floor_bucket \<lparr>sec = - 604800, nsec = 0\<rparr> = - 604800"
  by (simp add: floor_bucket_div bucket_def Unix_def GroupSize_def signed_divide_int_def)

subsection \<open>File names\<close>

lemma cleanFilename_nth:
  "i < length s \<Longrightarrow>
     cleanFilename s ! i =
       (if s ! i = CHR '' '' then CHR ''_''
        else if s ! i \<in> {CHR '':'', CHR 0x5C, CHR ''/''} then CHR ''-''
        else s ! i)"
  by (simp add: cleanFilename_def Replace_def cleaner_def)

text \<open>
  C7, as stated: the display name \<open>DDE Session Shell: v1/2\<close> is sanitized to
  \<open>DDE_Session_Shell--v1-2\<close>. It is not: the colon is followed by a space, and the space
  becomes an underscore.
\<close>

theorem cleanFilename_scenario_counterexample:
  "cleanFilename ''DDE Session Shell: v1/2'' \<noteq> ''DDE_Session_Shell--v1-2''"
  by (simp add: cleanFilename_def Replace_def cleaner_def)

text \<open>
  C7, amended: the display name \<open>DDE Session Shell: v1/2\<close> is sanitized to
  \<open>DDE_Session_Shell-_v1-2\<close>; for every name the result has the length of the name, a
  space has become an underscore, a colon, a backslash and a slash have become a hyphen,
  and every other character is unchanged.
\<close>

theorem cleanFilename_table:
  "cleanFilename ''DDE Session Shell: v1/2'' = ''DDE_Session_Shell-_v1-2''
   \<and> length (cleanFilename s) = length s
   \<and> (\<forall>i < length s.
         cleanFilename s ! i =
           (if s ! i = CHR '' '' then CHR ''_''
            else if s ! i \<in> {CHR '':'', CHR 0x5C, CHR ''/''} then CHR ''-''
            else s ! i))"
proof -
  have "cleanFilename ''DDE Session Shell: v1/2'' = ''DDE_Session_Shell-_v1-2''"
    by (simp add: cleanFilename_def Replace_def cleaner_def)
  moreover have "length (cleanFilename s) = length s"
    by (simp add: cleanFilename_def Replace_def)
  ultimately show ?thesis
    using cleanFilename_nth by blast
qed

theorem cleanFilename_table_witness:
  "(1::nat) < length ''a:b'' \<and> cleanFilename ''a:b'' ! 1 = CHR ''-''
   \<and> (2::nat) < length ''a:b'' \<and> cleanFilename ''a:b'' ! 2 = CHR ''b''"
  using cleanFilename_table [of "''a:b''"] by simp

subsection \<open>Load\<close>

lemma Load_loop_Name:
  "map_option Name (fst (Load_loop keys snap ft) k) = map_option Name (ft k)"
  by (induction keys arbitrary: ft) (auto split: option.splits)

lemma Load_Name:
  "map_option Name (fst (Load order ft f) k) = map_option Name (ft k)"
  by (cases f) (simp_all add: Load_def Load_loop_Name)

lemma Load_loop_no_Failure: "snd (Load_loop keys snap ft) \<noteq> Failure err"
  by (induction keys arbitrary: ft) (auto split: option.splits)

lemma Load_Failure_unchanged:
  "snd (Load order ft f) = Failure err \<Longrightarrow>
     fst (Load order ft f) = ft \<and> (f = Unreadable \<or> f = Corrupt)"
  by (cases f) (simp_all add: Load_def Load_loop_no_Failure)

lemma merge_spec_upd:
  "ft key = Some ch \<Longrightarrow> snap key = Some (Some v) \<Longrightarrow>
     merge_spec (ft(key \<mapsto> ch\<lparr>Commits := Commits v\<rparr>)) snap = merge_spec ft snap"
  by (rule ext) (simp add: merge_spec_def)

text \<open>
  The loop, as long as it meets no nil pointer, has merged the keys it has visited.
\<close>

lemma Load_loop_merge:
  "\<forall>k \<in> set keys. ft k \<noteq> None \<longrightarrow> snap k \<noteq> Some None \<Longrightarrow>
     Load_loop keys snap ft =
       (\<lambda>k. if k \<in> set keys then merge_spec ft snap k else ft k, Success)"
proof (induction keys arbitrary: ft)
  case Nil
  then show ?case by simp
next
  case (Cons key keys)
  show ?case
  proof (cases "ft key")
    case None
    then have "merge_spec ft snap key = ft key" by (simp add: merge_spec_def)
    with None Cons show ?thesis by (auto intro!: ext)
  next
    case (Some ch)
    show ?thesis
    proof (cases "snap key")
      case None
      then have "merge_spec ft snap key = ft key" using Some by (simp add: merge_spec_def)
      with None Some Cons show ?thesis by (auto intro!: ext)
    next
      case (Some vo)
      note sn = this
      with Cons.prems \<open>ft key = Some ch\<close> obtain v where v: "vo = Some v" by auto
      let ?ft = "ft(key \<mapsto> ch\<lparr>Commits := Commits v\<rparr>)"
      have m: "merge_spec ?ft snap = merge_spec ft snap"
        using \<open>ft key = Some ch\<close> sn v by (simp add: merge_spec_upd)
      have p: "\<forall>k \<in> set keys. ?ft k \<noteq> None \<longrightarrow> snap k \<noteq> Some None"
        using Cons.prems sn v by auto
      have k: "merge_spec ft snap key = ?ft key"
        using \<open>ft key = Some ch\<close> sn v by (simp add: merge_spec_def)
      have "Load_loop (key # keys) snap ft = Load_loop keys snap ?ft"
        using \<open>ft key = Some ch\<close> sn v by simp
      also have "\<dots> = (\<lambda>k. if k \<in> set keys then merge_spec ?ft snap k else ?ft k, Success)"
        by (rule Cons.IH [OF p])
      also have "(\<lambda>k. if k \<in> set keys then merge_spec ?ft snap k else ?ft k)
           = (\<lambda>k. if k \<in> set (key # keys) then merge_spec ft snap k else ft k)"
        using m k by (auto intro!: ext)
      finally show ?thesis .
    qed
  qed
qed

subsection \<open>The loops of run\<close>

lemma need_upd_other: "u \<noteq> k \<Longrightarrow> need (ft(k \<mapsto> c)) u = need ft u"
  by (simp add: need_def)

lemma fetch_loop_Clone:
  "Clone u \<in> set (snd (snd (fst (fetch_loop p us (ft, upd, tr))))) \<Longrightarrow>
     Clone u \<in> set tr \<or> need ft u"
proof (induction us arbitrary: ft upd tr)
  case Nil
  then show ?case by simp
next
  case (Cons k us)
  show ?case
  proof (cases "ft k")
    case None
    with Cons show ?thesis by simp
  next
    case (Some ch)
    show ?thesis
    proof (cases "Commits ch = []")
      case False
      with Some Cons show ?thesis by simp
    next
      case True
      then have nk: "need ft k" using Some by (simp add: need_def)
      show ?thesis
      proof (cases "p k")
        case CloneFails
        with Some True Cons.prems nk show ?thesis by auto
      next
        case (IterFails ts)
        with Some True Cons.prems nk show ?thesis by auto
      next
        case (Fetched ts)
        let ?ft = "ft(k \<mapsto> ch\<lparr>Commits := Commits ch @ ts\<rparr>)"
        from Fetched Some True Cons.prems
        have "Clone u \<in> set (snd (snd (fst (fetch_loop p us (?ft, True, tr @ [Clone k])))))"
          by simp
        then have "Clone u \<in> set (tr @ [Clone k]) \<or> need ?ft u"
          by (rule Cons.IH)
        then show ?thesis
          using nk by (cases "u = k") (auto simp: need_upd_other)
      qed
    qed
  qed
qed

lemma fetch_loop_Success:
  "snd (fetch_loop p us (ft, upd, tr)) = Success \<longleftrightarrow> (\<forall>u \<in> set us. need ft u \<longrightarrow> fetches p u)"
proof (induction us arbitrary: ft upd tr)
  case Nil
  then show ?case by simp
next
  case (Cons k us)
  show ?case
  proof (cases "ft k")
    case None
    then have "\<not> need ft k" by (simp add: need_def)
    with None Cons show ?thesis by simp
  next
    case (Some ch)
    show ?thesis
    proof (cases "Commits ch = []")
      case False
      then have "\<not> need ft k" using Some by (simp add: need_def)
      with False Some Cons show ?thesis by simp
    next
      case True
      then have nk: "need ft k" using Some by (simp add: need_def)
      show ?thesis
      proof (cases "p k")
        case CloneFails
        with Some True nk show ?thesis by (auto simp: fetches_def)
      next
        case (IterFails ts)
        with Some True nk show ?thesis by (auto simp: fetches_def)
      next
        case (Fetched ts)
        let ?ft = "ft(k \<mapsto> ch\<lparr>Commits := Commits ch @ ts\<rparr>)"
        have fk: "fetches p k" using Fetched by (simp add: fetches_def)
        have e: "fetch_loop p (k # us) (ft, upd, tr)
                = fetch_loop p us (?ft, True, tr @ [Clone k])"
          using Fetched Some True by simp
        have ih: "snd (fetch_loop p us (?ft, True, tr @ [Clone k])) = Success
                 \<longleftrightarrow> (\<forall>u \<in> set us. need ?ft u \<longrightarrow> fetches p u)"
          by (rule Cons.IH)
        have "(\<forall>u \<in> set us. need ?ft u \<longrightarrow> fetches p u)
                 \<longleftrightarrow> (\<forall>u \<in> set (k # us). need ft u \<longrightarrow> fetches p u)"
          using fk by (metis need_upd_other set_ConsD list.set_intros(1,2))
        with e ih show ?thesis by (simp del: fetch_loop.simps)
      qed
    qed
  qed
qed

lemma fetch_loop_updated:
  "snd (fetch_loop p us (ft, upd, tr)) = Success \<Longrightarrow>
     fst (snd (fst (fetch_loop p us (ft, upd, tr)))) \<longleftrightarrow> upd \<or> (\<exists>u \<in> set us. need ft u)"
proof (induction us arbitrary: ft upd tr)
  case Nil
  then show ?case by simp
next
  case (Cons k us)
  show ?case
  proof (cases "ft k")
    case None
    then have "\<not> need ft k" by (simp add: need_def)
    with None Cons show ?thesis by simp
  next
    case (Some ch)
    show ?thesis
    proof (cases "Commits ch = []")
      case False
      then have "\<not> need ft k" using Some by (simp add: need_def)
      with False Some Cons show ?thesis by simp
    next
      case True
      then have nk: "need ft k" using Some by (simp add: need_def)
      show ?thesis
      proof (cases "p k")
        case CloneFails
        with Some True Cons.prems show ?thesis by simp
      next
        case (IterFails ts)
        with Some True Cons.prems show ?thesis by simp
      next
        case (Fetched ts)
        let ?ft = "ft(k \<mapsto> ch\<lparr>Commits := Commits ch @ ts\<rparr>)"
        have e: "fetch_loop p (k # us) (ft, upd, tr) = fetch_loop p us (?ft, True, tr @ [Clone k])"
          using Fetched Some True by simp
        with Cons.prems have "snd (fetch_loop p us (?ft, True, tr @ [Clone k])) = Success"
          by simp
        then have "fst (snd (fst (fetch_loop p us (?ft, True, tr @ [Clone k]))))
                   \<longleftrightarrow> True \<or> (\<exists>u \<in> set us. need ?ft u)"
          by (rule Cons.IH)
        then have "fst (snd (fst (fetch_loop p (k # us) (ft, upd, tr))))"
          by (simp only: e simp_thms)
        with nk show ?thesis by (simp del: fetch_loop.simps)
      qed
    qed
  qed
qed

lemma fetch_loop_SaveCall:
  "SaveCall \<in> set (snd (snd (fst (fetch_loop p us (ft, upd, tr))))) \<longleftrightarrow> SaveCall \<in> set tr"
  by (induction us arbitrary: ft upd tr) (auto split: option.splits fetched.splits)

lemma display_loop_Clone:
  "Clone u \<in> set (fst (display_loop clk rnd us ft tr)) \<longleftrightarrow> Clone u \<in> set tr"
  by (induction us arbitrary: tr) (auto simp: display_def Let_def split: option.splits)

lemma display_loop_SaveCall:
  "SaveCall \<in> set (fst (display_loop clk rnd us ft tr)) \<longleftrightarrow> SaveCall \<in> set tr"
  by (induction us arbitrary: tr) (auto simp: display_def Let_def split: option.splits)

lemma display_loop_Render:
  "Render pl \<in> set (fst (display_loop clk rnd us ft tr)) \<Longrightarrow>
     Render pl \<in> set tr \<or> (\<exists>u ch. u \<in> set us \<and> ft u = Some ch \<and> pl = plot_of (clk u) ch)"
proof (induction us arbitrary: tr)
  case Nil
  then show ?case by simp
next
  case (Cons k us)
  show ?case
  proof (cases "ft k")
    case None
    with Cons.prems have "Render pl \<in> set (fst (display_loop clk rnd us ft tr))" by simp
    from Cons.IH [OF this] show ?thesis by auto
  next
    case (Some ch)
    show ?thesis
    proof (cases "rnd (plot_of (clk k) ch) = Success")
      case True
      with Some Cons.prems
      have "Render pl \<in> set (fst (display_loop clk rnd us ft (tr @ [Render (plot_of (clk k) ch)])))"
        by (simp add: display_def Let_def)
      from Cons.IH [OF this] Some show ?thesis by auto
    next
      case False
      with Some Cons.prems show ?thesis by (auto simp: display_def Let_def)
    qed
  qed
qed

lemma fetch_loop_Name:
  "map_option Name (fst (fst (fetch_loop p us (ft, upd, tr))) u) = map_option Name (ft u)"
  by (induction us arbitrary: ft upd tr) (auto split: option.splits fetched.splits)

lemma fetch_loop_Render:
  "Render pl \<in> set (snd (snd (fst (fetch_loop p us (ft, upd, tr))))) \<longleftrightarrow> Render pl \<in> set tr"
  by (induction us arbitrary: ft upd tr) (auto split: option.splits fetched.splits)

lemma Load_need_dom: "need (fst (Load order ft f) ) u \<Longrightarrow> u \<in> dom ft"
  using Load_Name [of order ft f u] by (cases "ft u") (auto simp: need_def split: option.splits)

subsection \<open>run\<close>

text \<open>The run, seen through its parts.\<close>

lemma run_unfold:
  assumes "Load (load_order e) ft f = (ft1, r1)"
    and "fetch_loop (provider e) (fetch_order e) (ft1, False, []) = ((ft2, upd, tr2), r2)"
    and "Save ft2 (save_env e) f = (f3, r3)"
    and "display_loop (clock e) (renderer e) (display_order e) ft2 tr2 = (tr4, r4)"
    and "display_loop (clock e) (renderer e) (display_order e) ft2 (tr2 @ [SaveCall]) = (tr5, r5)"
  shows "run e ft f =
     (if r1 \<noteq> Success then \<lparr>store = ft1, cache = f, trace = [], result = r1\<rparr>
      else if r2 \<noteq> Success then \<lparr>store = ft2, cache = f, trace = tr2, result = r2\<rparr>
      else if upd then
        (if r3 \<noteq> Success
         then \<lparr>store = ft2, cache = f3, trace = tr2 @ [SaveCall], result = r3\<rparr>
         else \<lparr>store = ft2, cache = f3, trace = tr5, result = r5\<rparr>)
      else \<lparr>store = ft2, cache = f, trace = tr4, result = r4\<rparr>)"
  by (simp add: run_def assms)

lemma run_Load_fails:
  assumes "snd (Load (load_order e) ft f) \<noteq> Success"
  shows "run e ft f = \<lparr>store = fst (Load (load_order e) ft f), cache = f, trace = [],
                   result = snd (Load (load_order e) ft f)\<rparr>"
proof -
  obtain ft1 r1 where l: "Load (load_order e) ft f = (ft1, r1)" by (cases "Load (load_order e) ft f")
  with assms show ?thesis by (simp add: run_def)
qed

lemma run_Clone:
  assumes "Clone u \<in> set (trace (run e ft f))"
  shows "Clone u \<in> set (snd (snd (fst (fetch_loop (provider e) (fetch_order e)
                                      (fst (Load (load_order e) ft f), False, [])))))"
proof -
  obtain ft1 r1 where l: "Load (load_order e) ft f = (ft1, r1)" by (cases "Load (load_order e) ft f")
  obtain ft2 upd tr2 r2 where
    fl: "fetch_loop (provider e) (fetch_order e) (ft1, False, []) = ((ft2, upd, tr2), r2)"
    by (metis prod_cases3 surj_pair)
  obtain f3 r3 where s: "Save ft2 (save_env e) f = (f3, r3)" by (cases "Save ft2 (save_env e) f")
  obtain tr4 r4 where
    d: "display_loop (clock e) (renderer e) (display_order e) ft2 tr2 = (tr4, r4)"
    by (cases "display_loop (clock e) (renderer e) (display_order e) ft2 tr2")
  obtain tr5 r5 where
    d': "display_loop (clock e) (renderer e) (display_order e) ft2 (tr2 @ [SaveCall]) = (tr5, r5)"
    by (cases "display_loop (clock e) (renderer e) (display_order e) ft2 (tr2 @ [SaveCall])")
  have n4: "Clone u \<in> set tr4 \<longleftrightarrow> Clone u \<in> set tr2"
    using display_loop_Clone [of u "clock e" "renderer e" "display_order e" ft2 tr2]
    by (simp add: d)
  have n5: "Clone u \<in> set tr5 \<longleftrightarrow> Clone u \<in> set tr2"
    using display_loop_Clone [of u "clock e" "renderer e" "display_order e" ft2 "tr2 @ [SaveCall]"]
    by (simp add: d')
  have "Clone u \<in> set tr2"
    using assms n4 n5 by (simp add: run_unfold [OF l fl s d d'] split: if_splits)
  then show ?thesis by (simp add: l fl)
qed

lemma run_SaveCall:
  "SaveCall \<in> set (trace (run e ft f)) \<longleftrightarrow>
     snd (Load (load_order e) ft f) = Success
     \<and> snd (fetch_loop (provider e) (fetch_order e) (fst (Load (load_order e) ft f), False, []))
         = Success
     \<and> fst (snd (fst (fetch_loop (provider e) (fetch_order e)
                        (fst (Load (load_order e) ft f), False, []))))"
proof -
  obtain ft1 r1 where l: "Load (load_order e) ft f = (ft1, r1)" by (cases "Load (load_order e) ft f")
  obtain ft2 upd tr2 r2 where
    fl: "fetch_loop (provider e) (fetch_order e) (ft1, False, []) = ((ft2, upd, tr2), r2)"
    by (metis prod_cases3 surj_pair)
  have n: "SaveCall \<notin> set tr2"
    using fetch_loop_SaveCall [of "provider e" "fetch_order e" ft1 False "[]"] by (simp add: fl)
  obtain f3 r3 where s: "Save ft2 (save_env e) f = (f3, r3)" by (cases "Save ft2 (save_env e) f")
  obtain tr4 r4 where
    d: "display_loop (clock e) (renderer e) (display_order e) ft2 tr2 = (tr4, r4)"
    by (cases "display_loop (clock e) (renderer e) (display_order e) ft2 tr2")
  obtain tr5 r5 where
    d': "display_loop (clock e) (renderer e) (display_order e) ft2 (tr2 @ [SaveCall]) = (tr5, r5)"
    by (cases "display_loop (clock e) (renderer e) (display_order e) ft2 (tr2 @ [SaveCall])")
  have n4: "SaveCall \<notin> set tr4"
    using display_loop_SaveCall [of "clock e" "renderer e" "display_order e" ft2 tr2] n
    by (simp add: d)
  have n5: "SaveCall \<in> set tr5"
    using display_loop_SaveCall [of "clock e" "renderer e" "display_order e" ft2 "tr2 @ [SaveCall]"]
    by (simp add: d')
  show ?thesis
    using n n4 n5 by (simp add: run_unfold [OF l fl s d d'] l fl)
qed

lemma run_cache:
  assumes "SaveCall \<notin> set (trace (run e ft f))"
  shows "cache (run e ft f) = f"
proof -
  obtain ft1 r1 where l: "Load (load_order e) ft f = (ft1, r1)" by (cases "Load (load_order e) ft f")
  obtain ft2 upd tr2 r2 where
    fl: "fetch_loop (provider e) (fetch_order e) (ft1, False, []) = ((ft2, upd, tr2), r2)"
    by (metis prod_cases3 surj_pair)
  obtain f3 r3 where s: "Save ft2 (save_env e) f = (f3, r3)" by (cases "Save ft2 (save_env e) f")
  obtain tr4 r4 where
    d: "display_loop (clock e) (renderer e) (display_order e) ft2 tr2 = (tr4, r4)"
    by (cases "display_loop (clock e) (renderer e) (display_order e) ft2 tr2")
  obtain tr5 r5 where
    d': "display_loop (clock e) (renderer e) (display_order e) ft2 (tr2 @ [SaveCall]) = (tr5, r5)"
    by (cases "display_loop (clock e) (renderer e) (display_order e) ft2 (tr2 @ [SaveCall])")
  from assms have "\<not> (r1 = Success \<and> r2 = Success \<and> upd)"
    by (simp add: run_SaveCall l fl)
  then show ?thesis
    by (auto simp add: run_unfold [OF l fl s d d'])
qed

lemma run_Render:
  assumes "Render pl \<in> set (trace (run e ft f))"
  shows "\<exists>u ch. ft u = Some ch \<and> Title pl = Name ch
           \<and> File pl = outputDir @ ''/'' @ cleanFilename (Name ch) @ ''.png''"
proof -
  obtain ft1 r1 where l: "Load (load_order e) ft f = (ft1, r1)" by (cases "Load (load_order e) ft f")
  obtain ft2 upd tr2 r2 where
    fl: "fetch_loop (provider e) (fetch_order e) (ft1, False, []) = ((ft2, upd, tr2), r2)"
    by (metis prod_cases3 surj_pair)
  obtain f3 r3 where s: "Save ft2 (save_env e) f = (f3, r3)" by (cases "Save ft2 (save_env e) f")
  obtain tr4 r4 where
    d: "display_loop (clock e) (renderer e) (display_order e) ft2 tr2 = (tr4, r4)"
    by (cases "display_loop (clock e) (renderer e) (display_order e) ft2 tr2")
  obtain tr5 r5 where
    d': "display_loop (clock e) (renderer e) (display_order e) ft2 (tr2 @ [SaveCall]) = (tr5, r5)"
    by (cases "display_loop (clock e) (renderer e) (display_order e) ft2 (tr2 @ [SaveCall])")
  have nr: "Render pl \<notin> set tr2"
    using fetch_loop_Render [of pl "provider e" "fetch_order e" ft1 False "[]"] by (simp add: fl)
  from assms nr have "Render pl \<in> set tr4 \<or> Render pl \<in> set tr5"
    by (simp add: run_unfold [OF l fl s d d'] split: if_splits)
  then have "\<exists>u ch. ft2 u = Some ch \<and> pl = plot_of (clock e u) ch"
  proof
    assume "Render pl \<in> set tr4"
    then have "Render pl \<in> set (fst (display_loop (clock e) (renderer e) (display_order e) ft2 tr2))"
      by (simp add: d)
    from display_loop_Render [OF this] nr show ?thesis by blast
  next
    assume "Render pl \<in> set tr5"
    then have "Render pl \<in> set (fst (display_loop (clock e) (renderer e) (display_order e) ft2
                                       (tr2 @ [SaveCall])))"
      by (simp add: d')
    from display_loop_Render [OF this] nr show ?thesis by auto
  qed
  then obtain u ch where u: "ft2 u = Some ch" "pl = plot_of (clock e u) ch" by blast
  have "map_option Name (ft2 u) = map_option Name (ft u)"
    using fetch_loop_Name [of "provider e" "fetch_order e" ft1 False "[]" u]
      Load_Name [of "load_order e" ft f u] by (simp add: fl l)
  with u obtain ch0 where "ft u = Some ch0" "Name ch0 = Name ch"
    by (cases "ft u") auto
  note c = this
  have "Title pl = Name ch"
    and "File pl = outputDir @ ''/'' @ cleanFilename (Name ch) @ ''.png''"
    using u by (simp_all add: plot_of_def split: prod.splits)
  with c show ?thesis by metis
qed

subsection \<open>Claims on Load\<close>

text \<open>
  C9. When the cache file does not exist, \<open>Load\<close> returns success and leaves the table as
  it was, so every entry of \<open>urlLookup\<close> still has no commits. When the file cannot be
  opened for another reason, or does not decode, \<open>Load\<close> returns an error; whenever
  \<open>Load\<close> returns an error the table is unchanged, and the run ends with that error
  before any call to the history provider (its trace is empty) and without touching the
  cache file.
\<close>

theorem Load_absent_or_failing:
  "Load (load_order e) ft NotExist = (ft, Success)
   \<and> (\<forall>u ch. fst (Load (load_order e) urlLookup NotExist) u = Some ch \<longrightarrow> Commits ch = [])
   \<and> Load (load_order e) ft Unreadable = (ft, Failure OpenError)
   \<and> Load (load_order e) ft Corrupt = (ft, Failure DecodeError)
   \<and> (\<forall>err. snd (Load (load_order e) ft f) = Failure err \<longrightarrow>
         fst (Load (load_order e) ft f) = ft
         \<and> run e ft f = \<lparr>store = ft, cache = f, trace = [], result = Failure err\<rparr>)"
proof -
  have "\<forall>u ch. fst (Load (load_order e) urlLookup NotExist) u = Some ch \<longrightarrow> Commits ch = []"
    by (auto simp: Load_def urlLookup_def split: if_splits)
  moreover have "\<forall>err. snd (Load (load_order e) ft f) = Failure err \<longrightarrow>
         fst (Load (load_order e) ft f) = ft
         \<and> run e ft f = \<lparr>store = ft, cache = f, trace = [], result = Failure err\<rparr>"
  proof (intro allI impI)
    fix err
    assume a: "snd (Load (load_order e) ft f) = Failure err"
    then have "fst (Load (load_order e) ft f) = ft"
      using Load_Failure_unchanged by blast
    moreover from a have "snd (Load (load_order e) ft f) \<noteq> Success" by simp
    ultimately show "fst (Load (load_order e) ft f) = ft
         \<and> run e ft f = \<lparr>store = ft, cache = f, trace = [], result = Failure err\<rparr>"
      using a by (simp add: run_Load_fails)
  qed
  ultimately show ?thesis
    by (simp add: Load_def)
qed

theorem Load_absent_or_failing_witness:
  "snd (Load (load_order env_ok) cfgAC Corrupt) = Failure DecodeError
   \<and> trace (run env_ok cfgAC Corrupt) = []
   \<and> store (run env_ok cfgAC Corrupt) = cfgAC
   \<and> urlLookup dock = Some \<lparr>Name = ''DDE Dock'', Commits = []\<rparr>
   \<and> fst (Load (load_order env_ok) urlLookup NotExist) dock
       = Some \<lparr>Name = ''DDE Dock'', Commits = []\<rparr>"
  using Load_absent_or_failing [of env_ok cfgAC Corrupt]
  by (simp add: Load_def urlLookup_def dock_def)

text \<open>
  C10. \<open>Load\<close> never changes the name of an entry, whatever the cache file holds (and it
  adds and removes no entry); and every chart a run draws has as title the name of an entry
  of the static table, and as file the sanitized name in the output directory.
\<close>

theorem Load_keeps_Name:
  "map_option Name (fst (Load order ft f) u) = map_option Name (ft u)
   \<and> (\<forall>pl. Render pl \<in> set (trace (run e ft f)) \<longrightarrow>
         (\<exists>u ch. ft u = Some ch \<and> Title pl = Name ch
                \<and> File pl = ''output/'' @ cleanFilename (Name ch) @ ''.png''))"
  using run_Render [of _ e ft f] by (simp add: Load_Name outputDir_def)

theorem Load_keeps_Name_witness:
  "snapAB ''urlA'' = Some (Some \<lparr>Name = ''Other'', Commits = [t2020]\<rparr>)
   \<and> fst (Load (load_order env_ok) cfgAC (Decoded snapAB)) ''urlA''
       = Some \<lparr>Name = ''A'', Commits = [t2020]\<rparr>
   \<and> Render (plot_of now2021 \<lparr>Name = ''A'', Commits = [t2020]\<rparr>)
        \<in> set (trace (run env_ok cfgAC (Decoded snapAB)))
   \<and> Title (plot_of now2021 \<lparr>Name = ''A'', Commits = [t2020]\<rparr>) = ''A''
   \<and> File (plot_of now2021 \<lparr>Name = ''A'', Commits = [t2020]\<rparr>) = ''output/A.png''"
proof -
  have r: "Render (plot_of now2021 \<lparr>Name = ''A'', Commits = [t2020]\<rparr>)
        \<in> set (trace (run env_ok cfgAC (Decoded snapAB)))"
    by (simp add: run_def Load_def Save_def display_def env_ok_def cfgAC_def snapAB_def)
  with Load_keeps_Name [of "load_order env_ok" cfgAC "Decoded snapAB" "''urlA''" env_ok]
  obtain u ch where "cfgAC u = Some ch"
    and t: "Title (plot_of now2021 \<lparr>Name = ''A'', Commits = [t2020]\<rparr>) = Name ch"
    and f: "File (plot_of now2021 \<lparr>Name = ''A'', Commits = [t2020]\<rparr>)
       = ''output/'' @ cleanFilename (Name ch) @ ''.png''"
    by blast
  have a: "Title (plot_of now2021 \<lparr>Name = ''A'', Commits = [t2020]\<rparr>) = ''A''"
    by (simp add: plot_of_def split: prod.splits)
  with t have "Name ch = ''A''" by simp
  with f have "File (plot_of now2021 \<lparr>Name = ''A'', Commits = [t2020]\<rparr>)
       = ''output/'' @ cleanFilename ''A'' @ ''.png''"
    by (simp only:)
  also have "\<dots> = ''output/A.png''"
    by (simp add: cleanFilename_def Replace_def cleaner_def)
  finally have "File (plot_of now2021 \<lparr>Name = ''A'', Commits = [t2020]\<rparr>) = ''output/A.png''" .
  with r a show ?thesis
    by (simp add: Load_def env_ok_def cfgAC_def snapAB_def)
qed

text \<open>
  C1. Let \<open>Load\<close> visit every key of the table, and let the snapshot hold a series (not
  the JSON value null) for every identifier of the table that it holds at all. Then
  \<open>Load\<close> succeeds and its result is the merge of the specification: an entry whose
  identifier is in the snapshot has the persisted commits, an identifier that is not in the
  table is not in the result (nothing is fabricated), and an entry whose identifier is not
  in the snapshot is as it was (nothing is deleted; it remains empty when it was empty).
\<close>

theorem Load_merges:
  assumes "dom ft \<subseteq> set order"
    and "\<forall>k \<in> dom ft. snap k \<noteq> Some None"
  shows "Load order ft (Decoded snap) = (merge_spec ft snap, Success)
    \<and> (\<forall>k ch v. ft k = Some ch \<and> snap k = Some (Some v) \<longrightarrow>
          fst (Load order ft (Decoded snap)) k = Some (ch\<lparr>Commits := Commits v\<rparr>))
    \<and> (\<forall>k. ft k = None \<longrightarrow> fst (Load order ft (Decoded snap)) k = None)
    \<and> (\<forall>k ch. ft k = Some ch \<and> snap k = None \<longrightarrow>
          fst (Load order ft (Decoded snap)) k = Some ch)"
proof -
  have "\<forall>k \<in> set order. ft k \<noteq> None \<longrightarrow> snap k \<noteq> Some None"
    using assms(2) by auto
  then have "Load_loop order snap ft =
       (\<lambda>k. if k \<in> set order then merge_spec ft snap k else ft k, Success)"
    by (rule Load_loop_merge)
  moreover have "(\<lambda>k. if k \<in> set order then merge_spec ft snap k else ft k) = merge_spec ft snap"
  proof (rule ext)
    fix k
    show "(if k \<in> set order then merge_spec ft snap k else ft k) = merge_spec ft snap k"
      using assms(1) by (cases "ft k") (auto simp: merge_spec_def)
  qed
  ultimately have "Load order ft (Decoded snap) = (merge_spec ft snap, Success)"
    by (simp add: Load_def)
  then show ?thesis
    by (simp add: merge_spec_def)
qed

theorem Load_merges_witness:
  "dom cfgAC \<subseteq> set [''urlA'', ''urlC'']
   \<and> snapAB ''urlA'' \<noteq> Some None \<and> snapAB ''urlC'' \<noteq> Some None
   \<and> fst (Load [''urlA'', ''urlC''] cfgAC (Decoded snapAB)) ''urlA''
       = Some \<lparr>Name = ''A'', Commits = [t2020]\<rparr>
   \<and> fst (Load [''urlA'', ''urlC''] cfgAC (Decoded snapAB)) ''urlB'' = None
   \<and> fst (Load [''urlA'', ''urlC''] cfgAC (Decoded snapAB)) ''urlC''
       = Some \<lparr>Name = ''C'', Commits = []\<rparr>"
proof -
  have d: "dom cfgAC \<subseteq> set [''urlA'', ''urlC'']"
    by (auto simp: cfgAC_def split: if_splits)
  have n: "\<forall>k \<in> dom cfgAC. snapAB k \<noteq> Some None"
    by (auto simp: cfgAC_def snapAB_def split: if_splits)
  from Load_merges [OF d n]
  have "Load [''urlA'', ''urlC''] cfgAC (Decoded snapAB) = (merge_spec cfgAC snapAB, Success)"
    by blast
  then have "fst (Load [''urlA'', ''urlC''] cfgAC (Decoded snapAB)) = merge_spec cfgAC snapAB"
    by simp
  moreover have "merge_spec cfgAC snapAB ''urlA'' = Some \<lparr>Name = ''A'', Commits = [t2020]\<rparr>"
    and "merge_spec cfgAC snapAB ''urlB'' = None"
    and "merge_spec cfgAC snapAB ''urlC'' = Some \<lparr>Name = ''C'', Commits = []\<rparr>"
    by (simp_all add: merge_spec_def cfgAC_def snapAB_def)
  ultimately show ?thesis
    using d by (simp add: snapAB_def)
qed

subsection \<open>Claims on run\<close>

text \<open>
  C2. An identifier whose commits are not empty when \<open>Load\<close> has returned is never
  handed to the history provider in that run; the provider is called only for identifiers
  that are in the table with no commits.
\<close>

theorem fetch_only_empty:
  "(\<forall>ch. fst (Load (load_order e) ft f) u = Some ch \<and> Commits ch \<noteq> [] \<longrightarrow>
        Clone u \<notin> set (trace (run e ft f)))
   \<and> (Clone u \<in> set (trace (run e ft f)) \<longrightarrow>
        (\<exists>ch. fst (Load (load_order e) ft f) u = Some ch \<and> Commits ch = []))"
proof -
  have "Clone u \<in> set (trace (run e ft f)) \<Longrightarrow> need (fst (Load (load_order e) ft f)) u"
    using fetch_loop_Clone [OF run_Clone] by fastforce
  then show ?thesis
    by (auto simp: need_def split: option.splits)
qed

theorem fetch_only_empty_witness:
  "fst (Load (load_order env_ok) cfgAC (Decoded snapAB)) ''urlA''
       = Some \<lparr>Name = ''A'', Commits = [t2020]\<rparr>
   \<and> Clone ''urlA'' \<notin> set (trace (run env_ok cfgAC (Decoded snapAB)))
   \<and> Clone ''urlC'' \<in> set (trace (run env_ok cfgAC (Decoded snapAB)))
   \<and> fst (Load (load_order env_ok) cfgAC (Decoded snapAB)) ''urlC''
       = Some \<lparr>Name = ''C'', Commits = []\<rparr>"
proof -
  have l: "fst (Load (load_order env_ok) cfgAC (Decoded snapAB)) ''urlA''
       = Some \<lparr>Name = ''A'', Commits = [t2020]\<rparr>"
    by (simp add: Load_def env_ok_def cfgAC_def snapAB_def)
  have c: "Clone ''urlC'' \<in> set (trace (run env_ok cfgAC (Decoded snapAB)))"
    by (simp add: run_def Load_def Save_def display_def env_ok_def cfgAC_def snapAB_def)
  from fetch_only_empty [of env_ok cfgAC "Decoded snapAB" "''urlA''"] l
  have "Clone ''urlA'' \<notin> set (trace (run env_ok cfgAC (Decoded snapAB)))" by simp
  with l c show ?thesis
    by (simp add: Load_def env_ok_def cfgAC_def snapAB_def)
qed

text \<open>
  C8, as stated: \<open>Save\<close> is called if and only if some identifier required a fresh
  fetch. It is not: with no cache file every entry of \<open>urlLookup\<close> requires a fetch, and
  when the history provider fails the run stops at the first error, before \<open>Save\<close>.
\<close>

theorem save_iff_fetch_counterexample:
  "need (fst (Load (load_order env_failing) urlLookup NotExist)) dock
   \<and> Clone dock \<in> set (trace (run env_failing urlLookup NotExist))
   \<and> SaveCall \<notin> set (trace (run env_failing urlLookup NotExist))"
  by (simp add: run_def Load_def need_def env_failing_def urlLookup_def daemon_def dock_def shell_def)

text \<open>
  C8, amended: in a run whose fetch loop visits every key of the table, \<open>Save\<close> is called
  if and only if \<open>Load\<close> succeeds, some identifier requires a fresh fetch, and the history
  provider delivers every identifier that requires one. When no identifier requires a fresh
  fetch, \<open>Save\<close> is not called and the cache file is what it was.
\<close>

theorem save_iff_fetched:
  assumes "dom ft \<subseteq> set (fetch_order e)"
  shows "(SaveCall \<in> set (trace (run e ft f)) \<longleftrightarrow>
            snd (Load (load_order e) ft f) = Success
            \<and> (\<exists>u. need (fst (Load (load_order e) ft f)) u)
            \<and> (\<forall>u. need (fst (Load (load_order e) ft f)) u \<longrightarrow> fetches (provider e) u))
    \<and> ((\<forall>u. \<not> need (fst (Load (load_order e) ft f)) u) \<longrightarrow>
          SaveCall \<notin> set (trace (run e ft f)) \<and> cache (run e ft f) = f)"
proof -
  let ?ft1 = "fst (Load (load_order e) ft f)"
  have in_order: "need ?ft1 u \<Longrightarrow> u \<in> set (fetch_order e)" for u
    using Load_need_dom assms by blast
  have s: "snd (fetch_loop (provider e) (fetch_order e) (?ft1, False, [])) = Success
          \<longleftrightarrow> (\<forall>u. need ?ft1 u \<longrightarrow> fetches (provider e) u)"
    using in_order by (auto simp: fetch_loop_Success)
  have u: "snd (fetch_loop (provider e) (fetch_order e) (?ft1, False, [])) = Success \<Longrightarrow>
      fst (snd (fst (fetch_loop (provider e) (fetch_order e) (?ft1, False, []))))
        \<longleftrightarrow> (\<exists>u. need ?ft1 u)"
    using in_order by (auto simp: fetch_loop_updated)
  have i: "SaveCall \<in> set (trace (run e ft f)) \<longleftrightarrow>
            snd (Load (load_order e) ft f) = Success
            \<and> (\<exists>u. need ?ft1 u) \<and> (\<forall>u. need ?ft1 u \<longrightarrow> fetches (provider e) u)"
    using s u by (auto simp: run_SaveCall)
  then have "(\<forall>u. \<not> need ?ft1 u) \<longrightarrow>
          SaveCall \<notin> set (trace (run e ft f)) \<and> cache (run e ft f) = f"
    using run_cache by blast
  with i show ?thesis by blast
qed

theorem save_iff_fetched_witness:
  "dom cfgAC \<subseteq> set (fetch_order env_ok)
   \<and> need (fst (Load (load_order env_ok) cfgAC (Decoded snapAB))) ''urlC''
   \<and> SaveCall \<in> set (trace (run env_ok cfgAC (Decoded snapAB)))
   \<and> SaveCall \<notin> set (trace (run env_ok cfgAC (Decoded snapAC)))
   \<and> cache (run env_ok cfgAC (Decoded snapAC)) = Decoded snapAC"
proof -
  have d: "dom cfgAC \<subseteq> set (fetch_order env_ok)"
    by (auto simp: cfgAC_def env_ok_def split: if_splits)
  have l: "snd (Load (load_order env_ok) cfgAC (Decoded snapAB)) = Success"
    by (simp add: Load_def env_ok_def cfgAC_def snapAB_def)
  have n: "need (fst (Load (load_order env_ok) cfgAC (Decoded snapAB))) ''urlC''"
    by (simp add: need_def Load_def env_ok_def cfgAC_def snapAB_def)
  have p: "\<forall>u. fetches (provider env_ok) u"
    by (simp add: fetches_def env_ok_def)
  from save_iff_fetched [OF d, of "Decoded snapAB"] l n p
  have s: "SaveCall \<in> set (trace (run env_ok cfgAC (Decoded snapAB)))" by blast
  have n': "\<forall>u. \<not> need (fst (Load (load_order env_ok) cfgAC (Decoded snapAC))) u"
    by (simp add: need_def Load_def env_ok_def cfgAC_def snapAC_def)
  from save_iff_fetched [OF d, of "Decoded snapAC"] n'
  have "SaveCall \<notin> set (trace (run env_ok cfgAC (Decoded snapAC)))
        \<and> cache (run env_ok cfgAC (Decoded snapAC)) = Decoded snapAC" by blast
  with d n s show ?thesis by simp
qed

subsection \<open>The aggregator\<close>

lemma agg_incr_distinct: "distinct (map fst agg) \<Longrightarrow> distinct (map fst (agg_incr b agg))"
  by (simp add: agg_incr_def distinct_update)

lemma agg_incr_map_of:
  "map_of (agg_incr b agg) =
     (map_of agg)(b \<mapsto> (case map_of agg b of None \<Rightarrow> 0 | Some y \<Rightarrow> y) + 1)"
  by (simp add: agg_incr_def update_conv')

lemma agg_incr_sum: "sum_list (map snd (agg_incr b agg)) = sum_list (map snd agg) + 1"
proof -
  have "sum_list (map snd (AList.update b (v + 1) agg))
          = sum_list (map snd agg) + 1"
    if "(case map_of agg b of None \<Rightarrow> 0 | Some y \<Rightarrow> y) = v" for v
    using that by (induction agg) (auto split: if_splits)
  then show ?thesis by (simp add: agg_incr_def)
qed

lemma agg_loop_distinct:
  "distinct (map fst agg) \<Longrightarrow> distinct (map fst (agg_loop now cs agg))"
  by (induction cs arbitrary: agg) (simp_all add: agg_incr_distinct)

lemma agg_loop_filter:
  "agg_loop now cs agg = agg_loop now [dt \<leftarrow> cs. \<not> Before now dt] agg"
  by (induction cs arbitrary: agg) simp_all

lemma agg_loop_sum:
  "sum_list (map snd (agg_loop now cs agg))
     = sum_list (map snd agg) + int (length [dt \<leftarrow> cs. \<not> Before now dt])"
  by (induction cs arbitrary: agg) (simp_all add: agg_incr_sum)

lemma agg_loop_map_of:
  "map_of (agg_loop now cs agg) b =
     (if counted now cs b = 0 then map_of agg b
      else Some ((case map_of agg b of None \<Rightarrow> 0 | Some y \<Rightarrow> y) + int (counted now cs b)))"
proof (induction cs arbitrary: agg)
  case Nil
  then show ?case by (simp add: counted_def)
next
  case (Cons dt cs)
  show ?case
  proof (cases "Before now dt")
    case True
    then have "counted now (dt # cs) b = counted now cs b" by (simp add: counted_def)
    with True Cons show ?thesis by simp
  next
    case False
    show ?thesis
    proof (cases "bucket dt = b")
      case True
      with False have "counted now (dt # cs) b = Suc (counted now cs b)"
        by (simp add: counted_def)
      with True False Cons [of "agg_incr (bucket dt) agg"] show ?thesis
        by (simp add: agg_incr_map_of)
    next
      case n: False
      with False have "counted now (dt # cs) b = counted now cs b"
        by (simp add: counted_def)
      with n False Cons [of "agg_incr (bucket dt) agg"] show ?thesis
        by (simp add: agg_incr_map_of)
    qed
  qed
qed

lemma agg_loop_entries:
  "(b, y) \<in> set (agg_loop now cs []) \<longleftrightarrow> y = int (counted now cs b) \<and> 0 < counted now cs b"
proof -
  have "distinct (map fst (agg_loop now cs []))"
    by (simp add: agg_loop_distinct)
  then have "(b, y) \<in> set (agg_loop now cs []) \<longleftrightarrow> map_of (agg_loop now cs []) b = Some y"
    by simp
  then show ?thesis
    by (auto simp: agg_loop_map_of)
qed

lemma foldl_max_Max: "foldl max m ys = Max (insert m (set ys))"
proof (induction ys arbitrary: m)
  case Nil
  then show ?case by simp
next
  case (Cons y ys)
  have "Max (insert (max m y) (set ys)) = Max (insert m (insert y (set ys)))"
    by (cases "set ys = {}") (simp_all add: max.assoc)
  with Cons show ?case by simp
qed

lemma data_loop_foldl:
  "data_loop es m d = (foldl max m (map (\<lambda>e. real_of_int (snd e)) es), d @ map point es)"
proof (induction es arbitrary: m d)
  case Nil
  then show ?case by simp
next
  case (Cons e es)
  obtain x y where e: "e = (x, y)" by (cases e)
  have "(if real_of_int y > m then real_of_int y else m) = max m (real_of_int y)"
    by (simp add: max_def)
  then show ?case
    using Cons [of "max m (real_of_int y)" "d @ [(real_of_int x, real_of_int y)]"]
    by (simp add: e point_def Let_def)
qed

lemma data_loop_eq:
  "data_loop es m d = (Max (insert m ((\<lambda>e. real_of_int (snd e)) ` set es)), d @ map point es)"
  by (simp add: data_loop_foldl foldl_max_Max)

lemma aggregate_from_eq:
  "aggregate_from es =
     (sort_key fst (map point es), Max (insert 0 ((\<lambda>e. real_of_int (snd e)) ` set es)))"
  by (simp add: aggregate_from_def data_loop_eq)



lemma map_fst_point: "map fst (map point es) = map real_of_int (map fst es)"
  by (simp add: point_def)

lemma distinct_points: "distinct (map fst es) \<Longrightarrow> distinct (map fst (map point es))"
  unfolding map_fst_point by (simp add: distinct_map inj_on_def)

lemma filter_key_distinct:
  "distinct (map f xs) \<Longrightarrow> k \<in> set xs \<Longrightarrow> [x \<leftarrow> xs. f k = f x] = [k]"
proof (induction xs)
  case Nil
  then show ?case by simp
next
  case (Cons x xs)
  show ?case
  proof (cases "k = x")
    case True
    with Cons.prems have "[y \<leftarrow> xs. f k = f y] = []"
      by (auto simp: filter_empty_conv)
    with True show ?thesis by simp
  next
    case False
    with Cons.prems have k: "k \<in> set xs" by auto
    from Cons.prems have "f x \<notin> f ` set xs" by auto
    with k have "f k \<noteq> f x" by (metis imageI)
    with k Cons show ?thesis by simp
  qed
qed

lemma sort_key_any_order:
  assumes "mset xs = mset ys" and "distinct (map f ys)"
  shows "sort_key f xs = sort_key f ys"
proof (rule properties_for_sort_key)
  show "mset (sort_key f ys) = mset xs" using assms(1) by simp
  show "sorted (map f (sort_key f ys))" by (rule sorted_sort_key)
  fix k assume "k \<in> set (sort_key f ys)"
  then have k: "k \<in> set ys" by simp
  then have kx: "k \<in> set xs" using assms(1) by (metis mset_eq_setD)
  have dx: "distinct (map f xs)"
    using assms by (metis distinct_map mset_eq_setD mset_eq_imp_distinct_iff)
  have ds: "distinct (map f (sort_key f ys))"
    using assms(2) by (simp add: distinct_map)
  show "[x \<leftarrow> sort_key f ys. f k = f x] = [x \<leftarrow> xs. f k = f x]"
    using filter_key_distinct [OF ds] filter_key_distinct [OF dx kx] k by simp
qed

text \<open>Whatever the order in which Go visits the map, the points and the maximum are the same.\<close>

lemma aggregate_any_order:
  assumes "mset es' = mset es" and "distinct (map fst es)"
  shows "aggregate_from es' = aggregate_from es"
proof -
  have "mset (map point es') = mset (map point es)" using assms(1) by simp
  then have "sort_key fst (map point es') = sort_key fst (map point es)"
    using distinct_points [OF assms(2)] by (rule sort_key_any_order)
  moreover have "set es' = set es" using assms(1) by (rule mset_eq_setD)
  ultimately show ?thesis by (simp add: aggregate_from_eq)
qed

lemma sorted_points:
  assumes "distinct (map fst es)"
  shows "sorted_wrt (<) (map fst (sort_key fst (map point es)))"
proof -
  from distinct_points [OF assms]
  have "distinct (map point es) \<and> inj_on fst (set (map point es))"
    by (simp only: distinct_map)
  then have "distinct (sort_key fst (map point es))
             \<and> inj_on fst (set (sort_key fst (map point es)))"
    by (simp only: distinct_sort set_sort)
  then have "distinct (map fst (sort_key fst (map point es)))"
    by (simp only: distinct_map)
  moreover have "sorted (map fst (sort_key fst (map point es)))"
    by (rule sorted_sort_key)
  ultimately show ?thesis
    by (simp only: strict_sorted_iff)
qed

lemma aggregate_sorted: "sorted_wrt (<) (map fst (fst (aggregate now cs)))"
proof -
  have "distinct (map fst (agg_loop now cs []))"
    by (simp add: agg_loop_distinct)
  from sorted_points [OF this] show ?thesis
    by (simp only: aggregate_def aggregate_from_eq fst_conv)
qed

lemma aggregate_set:
  "(x, y) \<in> set (fst (aggregate now cs)) \<longleftrightarrow>
     (\<exists>b. x = real_of_int b \<and> y = real (counted now cs b) \<and> 0 < counted now cs b)"
proof -
  have "(x, y) \<in> set (fst (aggregate now cs)) \<longleftrightarrow> (x, y) \<in> point ` set (agg_loop now cs [])"
    by (simp add: aggregate_def aggregate_from_eq)
  also have "\<dots> \<longleftrightarrow> (\<exists>b c. (b, c) \<in> set (agg_loop now cs []) \<and> x = real_of_int b \<and> y = real_of_int c)"
    by (force simp: point_def image_iff)
  also have "\<dots> \<longleftrightarrow> (\<exists>b. x = real_of_int b \<and> y = real (counted now cs b) \<and> 0 < counted now cs b)"
    by (auto simp: agg_loop_entries)
  finally show ?thesis .
qed

lemma aggregate_max:
  "snd (aggregate now cs) = Max (insert 0 (snd ` set (fst (aggregate now cs))))"
proof -
  have "snd ` set (sort_key fst (map point es)) = (\<lambda>e. real_of_int (snd e)) ` set es" for es
    by (force simp: point_def image_iff)
  then show ?thesis
    by (simp add: aggregate_def aggregate_from_eq)
qed

lemma sum_points: "sum_list (map snd (map point es)) = real_of_int (sum_list (map snd es))"
  by (induction es) (simp_all add: point_def)

lemma aggregate_sum:
  "sum_list (map snd (fst (aggregate now cs))) = real (length [dt \<leftarrow> cs. \<not> Before now dt])"
proof -
  let ?es = "agg_loop now cs []"
  have "sum_list (map snd (sort_key fst (map point ?es)))
          = sum_mset (image_mset snd (mset (sort_key fst (map point ?es))))"
    by (metis mset_map sum_mset_sum_list)
  also have "\<dots> = sum_list (map snd (map point ?es))"
    by (metis mset_sort mset_map sum_mset_sum_list)
  also have "\<dots> = real_of_int (sum_list (map snd ?es))"
    by (rule sum_points)
  also have "\<dots> = real (length [dt \<leftarrow> cs. \<not> Before now dt])"
    by (simp add: agg_loop_sum)
  finally show ?thesis
    by (simp add: aggregate_def aggregate_from_eq)
qed

subsection \<open>Claims on the aggregator\<close>

text \<open>
  The scenario of the specification: the commits at the seconds 0, 86400, 604800 and
  604800 + 3600, at any run time not before the last of them, give the buckets 0 and 604800
  with two commits each and the maximum 2.
\<close>

lemma scenario_aggregate:
  "604800 + 3600 \<le> sec far \<Longrightarrow> aggregate far scenario = ([(0, 2), (604800, 2)], 2)"
  by (simp add: aggregate_def aggregate_from_def agg_incr_def Before_def bucket_def Unix_def
      GroupSize_def signed_divide_int_def Let_def scenario_def epoch_sec_def)

text \<open>
  What the code emits, for every list of commits: the points are in strictly ascending
  order of their key; a point \<open>(x, y)\<close> is emitted exactly when \<open>x\<close> is a key of the code
  under which at least one commit was counted and \<open>y\<close> is that count, so no key with zero
  commits appears; \<open>maxY\<close> is the largest count of an emitted point (and 0 when there is
  none).
\<close>

lemma aggregate_code_buckets:
  "sorted_wrt (<) (map fst (fst (aggregate now cs)))
   \<and> (\<forall>x y. (x, y) \<in> set (fst (aggregate now cs)) \<longleftrightarrow>
         (\<exists>b. x = real_of_int b \<and> y = real (counted now cs b) \<and> 0 < counted now cs b))
   \<and> snd (aggregate now cs) = Max (insert 0 (snd ` set (fst (aggregate now cs))))"
  using aggregate_sorted aggregate_set aggregate_max by blast

text \<open>
  When no commit is before the epoch, the count of the code is the count of the
  specification.
\<close>

lemma counted_floor_nonneg:
  "\<forall>dt \<in> set cs. 0 \<le> Unix dt \<Longrightarrow> counted now cs b = floor_counted now cs b"
proof -
  assume "\<forall>dt \<in> set cs. 0 \<le> Unix dt"
  then have "[dt \<leftarrow> cs. \<not> Before now dt \<and> bucket dt = b]
             = [dt \<leftarrow> cs. \<not> Before now dt \<and> floor_bucket dt = b]"
    by (intro filter_cong) (simp_all add: bucket_floor_nonneg)
  then show ?thesis by (simp add: counted_def floor_counted_def)
qed

text \<open>
  C6. The claim: each emitted count is the number of commits, not after the run time,
  whose bucket key \<open>floor(epoch / W) * W\<close> is that bucket start. The code computes the key
  with Go's truncating division (the defect of C3), so for the commits one second before
  the epoch and at the epoch, at a run time ten seconds after it, the code emits the single
  bucket 0 with the count 2 and the maximum 2, where the bucket keys of the claim are
  \<open>-604800\<close> and 0 with one commit each.
\<close>

theorem aggregate_before_epoch:
  "aggregate (epoch_sec 10) [epoch_sec (- 1), epoch_sec 0] = ([(0, 2)], 2)
   \<and> floor_bucket (epoch_sec (- 1)) = - 604800
   \<and> floor_bucket (epoch_sec 0) = 0
   \<and> floor_counted (epoch_sec 10) [epoch_sec (- 1), epoch_sec 0] (- 604800) = 1
   \<and> floor_counted (epoch_sec 10) [epoch_sec (- 1), epoch_sec 0] 0 = 1"
proof -
  have "aggregate (epoch_sec 10) [epoch_sec (- 1), epoch_sec 0] = ([(0, 2)], 2)"
    by (simp add: aggregate_def aggregate_from_def agg_incr_def Before_def bucket_def Unix_def
        GroupSize_def signed_divide_int_def Let_def epoch_sec_def)
  moreover have "floor_bucket (epoch_sec (- 1)) = - 604800" and "floor_bucket (epoch_sec 0) = 0"
    by (simp_all add: floor_bucket_div Unix_def GroupSize_def epoch_sec_def)
  moreover have "floor_counted (epoch_sec 10) [epoch_sec (- 1), epoch_sec 0] (- 604800) = 1"
    and "floor_counted (epoch_sec 10) [epoch_sec (- 1), epoch_sec 0] 0 = 1"
    by (simp_all add: floor_counted_def floor_bucket_div Before_def Unix_def GroupSize_def
        epoch_sec_def)
  ultimately show ?thesis by simp
qed

text \<open>
  C4. Timestamps strictly after the run time have no effect on what the aggregator returns,
  neither on the points nor on the maximum: the result is that of the list without them,
  and inserting one such timestamp anywhere changes nothing. The counts add up to the number
  of timestamps that are not after the run time; each of those is counted in the emitted
  bucket of its own bucket start; a timestamp equal to the run time is not after it.
\<close>

theorem future_excluded:
  "aggregate now cs = aggregate now [dt \<leftarrow> cs. \<not> Before now dt]
   \<and> (Before now dt \<longrightarrow> aggregate now (xs @ dt # ys) = aggregate now (xs @ ys))
   \<and> sum_list (map snd (fst (aggregate now cs))) = real (length [dt \<leftarrow> cs. \<not> Before now dt])
   \<and> (\<forall>t \<in> set cs. \<not> Before now t \<longrightarrow>
         0 < counted now cs (bucket t)
         \<and> (real_of_int (bucket t), real (counted now cs (bucket t))) \<in> set (fst (aggregate now cs)))
   \<and> \<not> Before now now"
proof -
  have 1: "aggregate now cs = aggregate now [dt \<leftarrow> cs. \<not> Before now dt]" for cs
    using agg_loop_filter [of now cs "[]"] by (simp add: aggregate_def)
  have 2: "Before now dt \<longrightarrow> aggregate now (xs @ dt # ys) = aggregate now (xs @ ys)"
  proof
    assume "Before now dt"
    then have "[t \<leftarrow> xs @ dt # ys. \<not> Before now t] = [t \<leftarrow> xs @ ys. \<not> Before now t]" by simp
    then show "aggregate now (xs @ dt # ys) = aggregate now (xs @ ys)"
      using 1 [of "xs @ dt # ys"] 1 [of "xs @ ys"] by simp
  qed
  have 4: "\<forall>t \<in> set cs. \<not> Before now t \<longrightarrow>
         0 < counted now cs (bucket t)
         \<and> (real_of_int (bucket t), real (counted now cs (bucket t))) \<in> set (fst (aggregate now cs))"
  proof (intro ballI impI)
    fix t assume "t \<in> set cs" "\<not> Before now t"
    then have "t \<in> set [dt \<leftarrow> cs. \<not> Before now dt \<and> bucket dt = bucket t]" by simp
    then have "0 < counted now cs (bucket t)"
      unfolding counted_def by (metis length_pos_if_in_set)
    then show "0 < counted now cs (bucket t)
         \<and> (real_of_int (bucket t), real (counted now cs (bucket t))) \<in> set (fst (aggregate now cs))"
      using aggregate_set by blast
  qed
  have 5: "\<not> Before now now" by (simp add: Before_def)
  show ?thesis
    by (intro conjI) (rule 1 2 aggregate_sum 4 5)+
qed

theorem future_excluded_witness:
  "Before (epoch_sec 100) (epoch_sec 101)
   \<and> aggregate (epoch_sec 100) [epoch_sec 5, epoch_sec 101, epoch_sec 100]
       = aggregate (epoch_sec 100) [epoch_sec 5, epoch_sec 100]
   \<and> \<not> Before (epoch_sec 100) (epoch_sec 100)
   \<and> (0, 2) \<in> set (fst (aggregate (epoch_sec 100) [epoch_sec 5, epoch_sec 101, epoch_sec 100]))"
proof -
  let ?now = "epoch_sec 100" and ?cs = "[epoch_sec 5, epoch_sec 101, epoch_sec 100]"
  note t = future_excluded [of ?now ?cs "epoch_sec 101" "[epoch_sec 5]" "[epoch_sec 100]"]
  have b: "Before ?now (epoch_sec 101)" by (simp add: Before_def epoch_sec_def)
  have n: "\<not> Before ?now (epoch_sec 100)" by (simp add: Before_def epoch_sec_def)
  from t have "Before ?now (epoch_sec 101) \<longrightarrow>
      aggregate ?now ([epoch_sec 5] @ epoch_sec 101 # [epoch_sec 100])
        = aggregate ?now ([epoch_sec 5] @ [epoch_sec 100])"
    by (rule conjunct2 [THEN conjunct1])
  with b have e: "aggregate ?now ?cs = aggregate ?now [epoch_sec 5, epoch_sec 100]" by simp
  have m: "epoch_sec 100 \<in> set ?cs" by simp
  from t have "\<forall>t \<in> set ?cs. \<not> Before ?now t \<longrightarrow>
         0 < counted ?now ?cs (bucket t)
         \<and> (real_of_int (bucket t), real (counted ?now ?cs (bucket t)))
             \<in> set (fst (aggregate ?now ?cs))"
    by (rule conjunct2 [THEN conjunct2, THEN conjunct2, THEN conjunct1])
  with m n
  have "(real_of_int (bucket (epoch_sec 100)), real (counted ?now ?cs (bucket (epoch_sec 100))))
          \<in> set (fst (aggregate ?now ?cs))" by blast
  moreover have "bucket (epoch_sec 100) = 0"
    by (simp add: bucket_def Unix_def epoch_sec_def GroupSize_def signed_divide_int_def)
  moreover have "counted ?now ?cs 0 = 2"
    by (simp add: counted_def Before_def bucket_def Unix_def epoch_sec_def GroupSize_def
        signed_divide_int_def)
  ultimately have "(0, 2) \<in> set (fst (aggregate ?now ?cs))" by simp
  with b e n show ?thesis by simp
qed

subsection \<open>Axis ticks\<close>

lemma trunc_nonneg: "0 \<le> r \<Longrightarrow> trunc r = \<lfloor>r\<rfloor>"
  by (simp add: trunc_def)

text \<open>
  C5. Axis values are real numbers here. For \<open>min \<le> max\<close> the tick function returns
  (without a panic) exactly \<open>floor((max - min) / 604800)\<close> ticks; tick \<open>i\<close> is at
  \<open>min + i * 604800\<close>, so each tick is 604800 after the one before; the label of tick
  \<open>i\<close> is the marker when \<open>i mod 13 = 0\<close> and empty otherwise. For \<open>max = min\<close> it
  returns no tick.
\<close>

theorem Ticker_ticks:
  "(mn \<le> mx \<longrightarrow>
     (\<exists>ts. Ticker mn mx = Some ts
          \<and> int (length ts) = \<lfloor>(mx - mn) / 604800\<rfloor>
          \<and> (\<forall>i < length ts.
                Value (ts ! i) = mn + real i * 604800
                \<and> (Label (ts ! i) = (if i mod 13 = 0 then ''|'' else [])))
          \<and> (\<forall>i. Suc i < length ts \<longrightarrow> Value (ts ! Suc i) = Value (ts ! i) + 604800)))
   \<and> Ticker mx mx = Some []"
proof -
  have z: "Ticker mx mx = Some []"
    by (simp add: Ticker_def trunc_def)
  have "\<exists>ts. Ticker mn mx = Some ts
          \<and> int (length ts) = \<lfloor>(mx - mn) / 604800\<rfloor>
          \<and> (\<forall>i < length ts.
                Value (ts ! i) = mn + real i * 604800
                \<and> (Label (ts ! i) = (if i mod 13 = 0 then ''|'' else [])))
          \<and> (\<forall>i. Suc i < length ts \<longrightarrow> Value (ts ! Suc i) = Value (ts ! i) + 604800)"
    if le: "mn \<le> mx"
  proof -
    let ?n = "\<lfloor>(mx - mn) / 604800\<rfloor>"
    let ?ts = "map (\<lambda>i. \<lparr>Value = mn + real_of_int GroupSize * real i,
                           Label = (if i mod 13 = 0 then ''|'' else [])\<rparr>) [0..<nat ?n]"
    from le have nn: "0 \<le> (mx - mn) / 604800" by simp
    then have n0: "0 \<le> ?n" by simp
    have tr: "trunc ((mx - mn) / real_of_int GroupSize) = ?n"
      using nn by (simp add: trunc_nonneg GroupSize_def)
    have "Ticker mn mx = Some ?ts"
      using n0 by (simp add: Ticker_def tr Let_def)
    moreover have "int (length ?ts) = ?n" using n0 by simp
    moreover have "\<forall>i < length ?ts. Value (?ts ! i) = mn + real i * 604800
                \<and> (Label (?ts ! i) = (if i mod 13 = 0 then ''|'' else []))"
      by (simp add: GroupSize_def)
    moreover have "\<forall>i. Suc i < length ?ts \<longrightarrow> Value (?ts ! Suc i) = Value (?ts ! i) + 604800"
      by (simp add: GroupSize_def algebra_simps)
    ultimately show ?thesis by blast
  qed
  with z show ?thesis by blast
qed

theorem Ticker_ticks_witness:
  "(0::real) \<le> 8467205
   \<and> (\<exists>ts. Ticker 0 8467205 = Some ts \<and> length ts = 14
          \<and> Value (ts ! 13) = 7862400 \<and> Label (ts ! 13) = ''|'' \<and> Label (ts ! 1) = [])"
proof -
  from Ticker_ticks [of 0 8467205]
  obtain ts where t: "Ticker 0 8467205 = Some ts"
    and l: "int (length ts) = \<lfloor>(8467205 - 0) / (604800::real)\<rfloor>"
    and v: "\<forall>i < length ts. Value (ts ! i) = 0 + real i * 604800
                \<and> (Label (ts ! i) = (if i mod 13 = 0 then ''|'' else []))"
    by auto
  have "\<lfloor>(8467205 - 0) / (604800::real)\<rfloor> = 14" by simp
  with l have n: "length ts = 14" by simp
  with v have "Value (ts ! 13) = 0 + real 13 * 604800 \<and> Label (ts ! 13) = (if (13::nat) mod 13 = 0 then ''|'' else [])"
    and "Label (ts ! 1) = (if (1::nat) mod 13 = 0 then ''|'' else [])"
    by simp_all
  with t n show ?thesis by simp
qed

end
